theory Spec2Isabelle
  imports Complex_Main "HOL-Library.Word"
begin

unbundle bit_operations_syntax

section \<open>Data model of gui.py\<close>

text \<open>
  A \<open>bytearray\<close> is a list of 8-bit words, a Python \<open>int\<close> is an \<open>int\<close>. A Python
  \<open>float\<close> is modelled by a real number: the arithmetic of the source is kept as written,
  its rounding is not modelled.
\<close>

type_synonym byte = "8 word"

datatype py_error = IndexError | ValueError

definition SCALE_FACTOR :: real where
  "SCALE_FACTOR = (4.5 / 8388607 / 24.0) * 1000000"

subsection \<open>collections.deque with a maxlen\<close>

record 'a deque =
  maxlen :: nat
  items :: "'a list"

text \<open>\<open>deque.append\<close>: the item goes to the right end; a deque longer than its
  \<open>maxlen\<close> then loses its leftmost item.\<close>

definition deque_append :: "'a deque \<Rightarrow> 'a \<Rightarrow> 'a deque" where
  "deque_append d v =
     (let xs = items d @ [v]
      in d\<lparr>items := (if length xs > maxlen d then tl xs else xs)\<rparr>)"

text \<open>\<open>deque.popleft\<close>: raises IndexError on an empty deque.\<close>

definition deque_popleft :: "'a deque \<Rightarrow> py_error + ('a \<times> 'a deque)" where
  "deque_popleft d =
     (case items d of
        [] \<Rightarrow> Inl IndexError
      | x # xs \<Rightarrow> Inr (x, d\<lparr>items := xs\<rparr>))"

subsection \<open>BLEWorker\<close>

text \<open>
  The attributes of a \<open>BLEWorker\<close> that the decode path reads or writes. \<open>data_queue\<close> is
  the deque of the main window, which the worker holds by reference. \<open>stats_cb_calls\<close>
  records the arguments of every call of \<open>stats_cb\<close>, in order. \<open>time.time()\<close> is an
  input of the program: \<open>clock\<close> gives the successive readings and \<open>reads\<close> counts how
  many have been taken. The transport attributes (\<open>client\<close>, \<open>is_running\<close>) and the
  status callback belong to the connection and the user interface.
\<close>

record BLEWorker =
  rx_buffer :: "byte list"
  last_seq :: int
  expected :: int
  received :: int
  start_t :: real
  data_queue :: "real list deque"
  stats_cb_calls :: "(real \<times> real) list"
  clock :: "nat \<Rightarrow> real"
  reads :: nat

text \<open>\<open>BLEWorker.__init__\<close>, given the shared deque and the clock of the environment.\<close>

definition BLEWorker_init :: "real list deque \<Rightarrow> (nat \<Rightarrow> real) \<Rightarrow> nat \<Rightarrow> BLEWorker" where
  "BLEWorker_init dq clk n =
     \<lparr>rx_buffer = [], last_seq = - 1, expected = 0, received = 0, start_t = 0,
      data_queue = dq, stats_cb_calls = [], clock = clk, reads = n\<rparr>"

text \<open>\<open>MainWindow.data_queue = deque(maxlen=2500)\<close>.\<close>

definition MainWindow_data_queue :: "real list deque" where
  "MainWindow_data_queue = \<lparr>maxlen = 2500, items = []\<rparr>"

definition time_time :: "BLEWorker \<Rightarrow> real \<times> BLEWorker" where
  "time_time s = (clock s (reads s), s\<lparr>reads := Suc (reads s)\<rparr>)"

section \<open>process_packet\<close>

text \<open>Lines 92-98: the sequence tracker.\<close>

definition track_seq :: "int \<Rightarrow> BLEWorker \<Rightarrow> BLEWorker" where
  "track_seq seq s =
     (let s1 = (if last_seq s \<noteq> - 1
                then (let diff = (seq - last_seq s) AND 0xFF
                      in s\<lparr>expected := expected s + diff, received := received s + 1\<rparr>)
                else s\<lparr>last_seq := seq\<rparr>)
      in s1\<lparr>last_seq := seq\<rparr>)"

text \<open>Line 101: the loss percentage from the two counters.\<close>

definition loss :: "int \<Rightarrow> int \<Rightarrow> real" where
  "loss e r = (if e > 0 then (real_of_int (e - r) / real_of_int e) * 100 else 0)"

text \<open>Lines 100-105: the statistics report.\<close>

definition stats_tick :: "BLEWorker \<Rightarrow> BLEWorker" where
  "stats_tick s =
     (if received s mod 50 = 0
      then (let l = loss (expected s) (received s);
                s1 = (if start_t s = 0
                      then (let (t, s') = time_time s in s'\<lparr>start_t := t\<rparr>)
                      else s);
                (now, s2) = time_time s1;
                elapsed = now - start_t s2;
                fps = (if elapsed > 0 then real_of_int (received s2 * 2) / elapsed else 0)
            in s2\<lparr>stats_cb_calls := stats_cb_calls s2 @ [(l, fps)]\<rparr>)
      else s)"

text \<open>Lines 112-113: one 24-bit big-endian field at index \<open>idx\<close>, sign-extended.\<close>

definition decode_val :: "byte list \<Rightarrow> nat \<Rightarrow> int" where
  "decode_val data idx =
     (let val = push_bit 16 (uint (data ! idx)) OR push_bit 8 (uint (data ! (idx + 1)))
                OR uint (data ! (idx + 2))
      in if val AND 0x800000 \<noteq> 0 then val - 0x1000000 else val)"

text \<open>Lines 107-115: the two sub-frames, for a packet of at least 50 bytes.\<close>

definition decode_frames :: "byte list \<Rightarrow> real list list" where
  "decode_frames data =
     map (\<lambda>offset. map (\<lambda>i. real_of_int (decode_val data (offset + i * 3)) * SCALE_FACTOR)
                        [0..<8])
         [2, 26]"

text \<open>
  \<open>process_packet\<close>. Reading \<open>data[1]\<close> raises IndexError on fewer than 2 bytes; the
  decode loop reads up to \<open>data[49]\<close> and raises on fewer than 50. The state at a raise is
  not returned.
\<close>

definition process_packet :: "BLEWorker \<Rightarrow> byte list \<Rightarrow> py_error + BLEWorker" where
  "process_packet s data =
     (if length data < 2 then Inl IndexError
      else (let seq = uint (data ! 1);
                s1 = track_seq seq s;
                s2 = stats_tick s1
            in if length data < 50 then Inl IndexError
               else (let frames = decode_frames data
                     in Inr (s2\<lparr>data_queue :=
                               deque_append (deque_append (data_queue s2) (frames ! 0))
                                            (frames ! 1)\<rparr>))))"

section \<open>notification_handler\<close>

text \<open>Lines 82-88: the extraction loop on the worker.\<close>

function extract_loop :: "BLEWorker \<Rightarrow> py_error + BLEWorker" where
  "extract_loop s =
     (if length (rx_buffer s) \<ge> 52
      then (if rx_buffer s ! 0 \<noteq> 0xA0
            then extract_loop (s\<lparr>rx_buffer := tl (rx_buffer s)\<rparr>)
            else (case process_packet (s\<lparr>rx_buffer := drop 52 (rx_buffer s)\<rparr>)
                                      (take 52 (rx_buffer s)) of
                    Inl e \<Rightarrow> Inl e
                  | Inr s' \<Rightarrow> extract_loop s'))
      else Inr s)"
  by pat_completeness auto
termination
proof (relation "measure (\<lambda>s. length (rx_buffer s))")
  show "wf (measure (\<lambda>s. length (rx_buffer s)))" by simp
next
  fix s :: BLEWorker
  assume "52 \<le> length (rx_buffer s)"
  then show "(s\<lparr>rx_buffer := tl (rx_buffer s)\<rparr>, s) \<in> measure (\<lambda>s. length (rx_buffer s))"
    by simp
next
  fix s s' :: BLEWorker
  assume long: "52 \<le> length (rx_buffer s)"
    and pp: "process_packet (s\<lparr>rx_buffer := drop 52 (rx_buffer s)\<rparr>) (take 52 (rx_buffer s)) = Inr s'"
  from pp have "rx_buffer s' = drop 52 (rx_buffer s)"
    by (auto simp: process_packet_def track_seq_def stats_tick_def time_time_def Let_def
             split: if_splits)
  with long show "(s', s) \<in> measure (\<lambda>s. length (rx_buffer s))"
    by simp
qed

declare extract_loop.simps [simp del]

definition notification_handler :: "BLEWorker \<Rightarrow> byte list \<Rightarrow> py_error + BLEWorker" where
  "notification_handler s data = extract_loop (s\<lparr>rx_buffer := rx_buffer s @ data\<rparr>)"

text \<open>The transport calls \<open>notification_handler\<close> once for every chunk it delivers.\<close>

fun notifications :: "BLEWorker \<Rightarrow> byte list list \<Rightarrow> py_error + BLEWorker" where
  "notifications s [] = Inr s"
| "notifications s (c # cs) =
     (case notification_handler s c of
        Inl e \<Rightarrow> Inl e
      | Inr s' \<Rightarrow> notifications s' cs)"

subsection \<open>The loop seen from the buffer\<close>

text \<open>
  What the loop of lines 82-88 does to the buffer, as the list of its steps: a byte popped
  from the front (line 84), or a packet cut off and handed to \<open>process_packet\<close>
  (lines 86-88). The second component is the buffer the loop leaves.
\<close>

datatype step = Discard byte | Packet "byte list"

function extract_steps :: "byte list \<Rightarrow> step list \<times> byte list" where
  "extract_steps buf =
     (if length buf \<ge> 52
      then (if buf ! 0 \<noteq> 0xA0
            then (let (st, r) = extract_steps (tl buf) in (Discard (buf ! 0) # st, r))
            else (let (st, r) = extract_steps (drop 52 buf) in (Packet (take 52 buf) # st, r)))
      else ([], buf))"
  by pat_completeness auto
termination
  by (relation "measure length") auto

declare extract_steps.simps [simp del]

fun packets :: "step list \<Rightarrow> byte list list" where
  "packets [] = []"
| "packets (Discard b # st) = packets st"
| "packets (Packet p # st) = p # packets st"

fun discarded :: "step list \<Rightarrow> byte list" where
  "discarded [] = []"
| "discarded (Discard b # st) = b # discarded st"
| "discarded (Packet p # st) = discarded st"

text \<open>The steps of successive calls, one per chunk, from the accumulator \<open>acc\<close>.\<close>

fun feed_steps :: "byte list \<Rightarrow> byte list list \<Rightarrow> step list \<times> byte list" where
  "feed_steps acc [] = ([], acc)"
| "feed_steps acc (c # cs) =
     (let (st, acc') = extract_steps (acc @ c);
          (st', acc'') = feed_steps acc' cs
      in (st @ st', acc''))"

text \<open>\<open>process_packet\<close> on a list of packets in order, stopping at a raise.\<close>

fun process_packets :: "BLEWorker \<Rightarrow> byte list list \<Rightarrow> py_error + BLEWorker" where
  "process_packets s [] = Inr s"
| "process_packets s (p # ps) =
     (case process_packet s p of
        Inl e \<Rightarrow> Inl e
      | Inr s' \<Rightarrow> process_packets s' ps)"

section \<open>MainWindow\<close>

text \<open>
  Lines 246-249, the drain loop of \<open>update_plot\<close>: \<open>popleft\<close> until it raises
  IndexError, collecting the items in \<open>data\<close>.
\<close>

function popleft_all :: "'a deque \<Rightarrow> 'a list \<Rightarrow> 'a list \<times> 'a deque" where
  "popleft_all d data =
     (case deque_popleft d of
        Inl e \<Rightarrow> (data, d)
      | Inr (x, d') \<Rightarrow> popleft_all d' (data @ [x]))"
  by pat_completeness auto
termination
  by (relation "measure (\<lambda>(d, data). length (items d))")
     (auto simp: deque_popleft_def split: list.splits)

declare popleft_all.simps [simp del]

text \<open>\<open>MainWindow.plot_buffer = np.zeros((8, 1250))\<close>, as a list of 8 rows.\<close>

definition MainWindow_plot_buffer :: "real list list" where
  "MainWindow_plot_buffer = replicate 8 (replicate 1250 0)"

text \<open>
  \<open>update_plot\<close> (lines 245-256) on the queue and on \<open>plot_buffer\<close>, an array of 8 rows
  of 1250 columns throughout. After the drain loop it returns at once when nothing was
  drained (line 250). Otherwise \<open>arr = np.array(data)\<close> has \<open>n = len(data)\<close> rows of
  \<open>m\<close> columns; rows of different lengths make NumPy raise ValueError. Line 253 rolls
  every row of the buffer \<open>n\<close> columns to the left. Line 254 writes \<open>arr.T\<close>, of
  shape \<open>(m, n)\<close>, onto the last \<open>n\<close> columns: the slice \<open>[:, -n:]\<close> has
  \<open>min n 1250\<close> columns, so the assignment broadcasts only if \<open>n \<le> 1250\<close> and \<open>m\<close>
  is 8 or 1, and raises ValueError otherwise. Handing the rows to the curves
  (lines 255-256) is left to the user interface. The state at a raise is not returned.
\<close>

definition update_plot ::
  "real list deque \<Rightarrow> real list list \<Rightarrow> py_error + (real list deque \<times> real list list)" where
  "update_plot q plot_buffer =
     (let (data, q') = popleft_all q []
      in if data = [] then Inr (q', plot_buffer)
         else (let n = length data;
                   m = length (hd data);
                   rolled = map (rotate n) plot_buffer
               in if list_all (\<lambda>v. length v = m) data \<and> (m = 8 \<or> m = 1) \<and> n \<le> 1250
                  then Inr (q', map (\<lambda>i. take (1250 - n) (rolled ! i)
                                         @ map (\<lambda>v. v ! (if m = 1 then 0 else i)) data)
                                    [0..<8])
                  else Inl ValueError))"

text \<open>
  \<open>send_cmd\<close> (lines 219-229) on \<open>self.ble_worker\<close>, which is None until a connection
  is opened. \<open>send_command\<close> writes the character to the transport and \<open>update_status\<close>
  sets a label; neither touches the attributes modelled here.
\<close>

definition send_cmd :: "string \<Rightarrow> BLEWorker option \<Rightarrow> BLEWorker option" where
  "send_cmd char bw =
     (case bw of
        None \<Rightarrow> None
      | Some w \<Rightarrow>
          (if char = ''b''
           then (let (t, w1) = time_time w in Some (w1\<lparr>start_t := t, received := 0\<rparr>))
           else if char = ''s'' then Some w
           else if char = ''d'' then Some w
           else Some w))"

section \<open>Auxiliary facts\<close>

lemma and_255: "(x::int) AND 0xFF = x mod 256"
proof -
  have "(0xFF::int) = mask 8" by (simp add: mask_eq_exp_minus_1)
  then have "x AND 0xFF = take_bit 8 x" by (simp add: take_bit_eq_mask)
  then show ?thesis by (simp add: take_bit_eq_mod)
qed

lemma track_seq_fields [simp]:
  "last_seq (track_seq seq s) = seq"
  "expected (track_seq seq s) = (if last_seq s \<noteq> - 1 then expected s + (seq - last_seq s) mod 256 else expected s)"
  "received (track_seq seq s) = (if last_seq s \<noteq> - 1 then received s + 1 else received s)"
  "rx_buffer (track_seq seq s) = rx_buffer s"
  "start_t (track_seq seq s) = start_t s"
  "data_queue (track_seq seq s) = data_queue s"
  "stats_cb_calls (track_seq seq s) = stats_cb_calls s"
  "clock (track_seq seq s) = clock s"
  "reads (track_seq seq s) = reads s"
  by (simp_all add: track_seq_def Let_def and_255)

lemma stats_tick_fields [simp]:
  "last_seq (stats_tick s) = last_seq s"
  "expected (stats_tick s) = expected s"
  "received (stats_tick s) = received s"
  "rx_buffer (stats_tick s) = rx_buffer s"
  "data_queue (stats_tick s) = data_queue s"
  "clock (stats_tick s) = clock s"
  by (simp_all add: stats_tick_def Let_def time_time_def split: prod.splits)

lemma stats_tick_calls:
  "received s mod 50 \<noteq> 0 \<Longrightarrow> stats_cb_calls (stats_tick s) = stats_cb_calls s"
  "received s mod 50 = 0 \<Longrightarrow> \<exists>fps. stats_cb_calls (stats_tick s) = stats_cb_calls s @ [(loss (expected s) (received s), fps)]"
  by (simp_all add: stats_tick_def Let_def time_time_def split: prod.splits)

lemma process_packet_Inr:
  "50 \<le> length data \<Longrightarrow>
   process_packet s data =
     Inr ((stats_tick (track_seq (uint (data ! 1)) s))
            \<lparr>data_queue := deque_append (deque_append (data_queue s) (decode_frames data ! 0))
                                        (decode_frames data ! 1)\<rparr>)"
  by (simp add: process_packet_def Let_def)

lemma process_packet_rx_indep:
  "process_packet (s\<lparr>rx_buffer := b\<rparr>) data = map_sum id (\<lambda>s'. s'\<lparr>rx_buffer := b\<rparr>) (process_packet s data)"
  apply (simp add: process_packet_def Let_def track_seq_def stats_tick_def time_time_def and_255 split: prod.splits)
  done


section \<open>The sequence tracker\<close>

text \<open>
  Claim C3. Once a first packet has been seen (\<open>last_seq\<close> is no longer \<open>-1\<close>), every
  packet adds \<open>(seq - last_seq) mod 256\<close> to \<open>expected\<close> and 1 to \<open>received\<close>. From a
  fresh worker, packets with the sequence bytes 10, 11, 12 leave
  \<open>expected = received = 2\<close>, and packets with 254, 255, 0, 1 leave
  \<open>expected = received = 3\<close>. The step from 255 to 0 adds exactly 1 to \<open>expected\<close>.
\<close>

theorem sequence_tracker:
  "(last_seq s \<noteq> - 1 \<and> length data = 52 \<longrightarrow>
      (\<exists>s'. process_packet s data = Inr s'
            \<and> expected s' = expected s + (uint (data ! 1) - last_seq s) mod 256
            \<and> received s' = received s + 1))
   \<and> ((\<forall>p \<in> set ps. length p = 52) \<and> map (\<lambda>p. p ! 1) ps = [10, 11, 12] \<longrightarrow>
      (\<exists>s'. process_packets (BLEWorker_init dq clk n) ps = Inr s'
            \<and> expected s' = 2 \<and> received s' = 2))
   \<and> ((\<forall>p \<in> set qs. length p = 52) \<and> map (\<lambda>p. p ! 1) qs = [254, 255, 0, 1] \<longrightarrow>
      (\<exists>s'. process_packets (BLEWorker_init dq clk n) qs = Inr s'
            \<and> expected s' = 3 \<and> received s' = 3))
   \<and> (last_seq s = 255 \<and> length data = 52 \<and> data ! 1 = 0 \<longrightarrow>
      (\<exists>s'. process_packet s data = Inr s'
            \<and> expected s' = expected s + 1 \<and> received s' = received s + 1))"
proof (intro conjI impI)
  assume "last_seq s \<noteq> - 1 \<and> length data = 52"
  then show "\<exists>s'. process_packet s data = Inr s'
            \<and> expected s' = expected s + (uint (data ! 1) - last_seq s) mod 256
            \<and> received s' = received s + 1"
    by (simp add: process_packet_Inr)
next
  assume h: "(\<forall>p \<in> set ps. length p = 52) \<and> map (\<lambda>p. p ! 1) ps = [10, 11, 12]"
  then obtain p1 p2 p3 where ps: "ps = [p1, p2, p3]"
    by (auto simp: map_eq_Cons_conv)
  with h show "\<exists>s'. process_packets (BLEWorker_init dq clk n) ps = Inr s'
            \<and> expected s' = 2 \<and> received s' = 2"
    by (simp add: process_packet_Inr BLEWorker_init_def)
next
  assume h: "(\<forall>p \<in> set qs. length p = 52) \<and> map (\<lambda>p. p ! 1) qs = [254, 255, 0, 1]"
  then obtain p1 p2 p3 p4 where qs: "qs = [p1, p2, p3, p4]"
    by (auto simp: map_eq_Cons_conv)
  with h show "\<exists>s'. process_packets (BLEWorker_init dq clk n) qs = Inr s'
            \<and> expected s' = 3 \<and> received s' = 3"
    by (simp add: process_packet_Inr BLEWorker_init_def)
next
  assume "last_seq s = 255 \<and> length data = 52 \<and> data ! 1 = 0"
  then show "\<exists>s'. process_packet s data = Inr s'
            \<and> expected s' = expected s + 1 \<and> received s' = received s + 1"
    by (simp add: process_packet_Inr)
qed


text \<open>The four parts of the tracker property at concrete packets.\<close>

theorem sequence_tracker_witness:
  "(\<exists>s'. process_packet ((BLEWorker_init MainWindow_data_queue real 0)\<lparr>last_seq := 7\<rparr>)
                         (0xA0 # 9 # replicate 50 0) = Inr s'
         \<and> expected s' = 2 \<and> received s' = 1)
   \<and> (\<exists>s'. process_packets (BLEWorker_init MainWindow_data_queue real 0)
              [0xA0 # 10 # replicate 50 0, 0xA0 # 11 # replicate 50 0,
               0xA0 # 12 # replicate 50 0] = Inr s'
         \<and> expected s' = 2 \<and> received s' = 2)
   \<and> (\<exists>s'. process_packets (BLEWorker_init MainWindow_data_queue real 0)
              [0xA0 # 254 # replicate 50 0, 0xA0 # 255 # replicate 50 0,
               0xA0 # 0 # replicate 50 0, 0xA0 # 1 # replicate 50 0] = Inr s'
         \<and> expected s' = 3 \<and> received s' = 3)
   \<and> (\<exists>s'. process_packet ((BLEWorker_init MainWindow_data_queue real 0)\<lparr>last_seq := 255\<rparr>)
                         (0xA0 # 0 # replicate 50 0) = Inr s'
         \<and> expected s' = 1 \<and> received s' = 1)"
  using sequence_tracker [of "(BLEWorker_init MainWindow_data_queue real 0)\<lparr>last_seq := 7\<rparr>"
      "0xA0 # 9 # replicate 50 0"
      "[0xA0 # 10 # replicate 50 0, 0xA0 # 11 # replicate 50 0, 0xA0 # 12 # replicate 50 0]"
      MainWindow_data_queue real 0
      "[0xA0 # 254 # replicate 50 0, 0xA0 # 255 # replicate 50 0,
               0xA0 # 0 # replicate 50 0, 0xA0 # 1 # replicate 50 0]"]
    sequence_tracker [of "(BLEWorker_init MainWindow_data_queue real 0)\<lparr>last_seq := 255\<rparr>"
      "0xA0 # 0 # replicate 50 0" "[]" MainWindow_data_queue real 0 "[]"]
  by (simp add: BLEWorker_init_def)

section \<open>The loss percentage\<close>

text \<open>
  Claim C6. \<open>process_packet\<close> never faults on a 52-byte packet. When it reports (the
  \<open>received\<close> counter is a multiple of 50 after the update), the loss it passes to
  \<open>stats_cb\<close> is \<open>100 * (expected - received) / expected\<close> if \<open>expected > 0\<close>, and 0
  if \<open>expected = 0\<close>; with \<open>expected = 100\<close> and \<open>received = 50\<close> it is 50.
\<close>

theorem loss_percentage:
  "length data = 52 \<longrightarrow>
     (\<exists>s' l fps. process_packet s data = Inr s'
        \<and> (received s' mod 50 = 0 \<longrightarrow>
              stats_cb_calls s' = stats_cb_calls s @ [(l, fps)]
            \<and> (0 < expected s' \<longrightarrow>
                  l = 100 * real_of_int (expected s' - received s') / real_of_int (expected s'))
            \<and> (expected s' = 0 \<longrightarrow> l = 0)
            \<and> (expected s' = 100 \<and> received s' = 50 \<longrightarrow> l = 50)))"
proof
  assume len: "length data = 52"
  define s1 where "s1 = track_seq (uint (data ! 1)) s"
  define s' where "s' = (stats_tick s1)
            \<lparr>data_queue := deque_append (deque_append (data_queue s) (decode_frames data ! 0))
                                        (decode_frames data ! 1)\<rparr>"
  have pp: "process_packet s data = Inr s'"
    using len by (simp add: process_packet_Inr s'_def s1_def)
  have f: "expected s' = expected s1" "received s' = received s1"
    "stats_cb_calls s1 = stats_cb_calls s"
    by (simp_all add: s'_def s1_def)
  show "\<exists>s' l fps. process_packet s data = Inr s'
        \<and> (received s' mod 50 = 0 \<longrightarrow>
              stats_cb_calls s' = stats_cb_calls s @ [(l, fps)]
            \<and> (0 < expected s' \<longrightarrow>
                  l = 100 * real_of_int (expected s' - received s') / real_of_int (expected s'))
            \<and> (expected s' = 0 \<longrightarrow> l = 0)
            \<and> (expected s' = 100 \<and> received s' = 50 \<longrightarrow> l = 50))"
  proof (cases "received s1 mod 50 = 0")
    case True
    from stats_tick_calls(2) [OF True] obtain fps where
      "stats_cb_calls (stats_tick s1) = stats_cb_calls s1 @ [(loss (expected s1) (received s1), fps)]"
      by blast
    then have "stats_cb_calls s' = stats_cb_calls s @ [(loss (expected s') (received s'), fps)]"
      by (simp add: s'_def f)
    moreover have "0 < expected s' \<longrightarrow> loss (expected s') (received s')
        = 100 * real_of_int (expected s' - received s') / real_of_int (expected s')"
      by (simp add: loss_def)
    moreover have "expected s' = 0 \<longrightarrow> loss (expected s') (received s') = 0"
      by (simp add: loss_def)
    moreover have "expected s' = 100 \<and> received s' = 50 \<longrightarrow> loss (expected s') (received s') = 50"
      by (simp add: loss_def)
    ultimately show ?thesis using pp by blast
  next
    case False
    then show ?thesis using pp f by auto
  qed
qed

text \<open>A report with \<open>expected = 100\<close>, \<open>received = 50\<close>, and the report of a fresh
  worker, where \<open>expected = 0\<close>.\<close>

theorem loss_percentage_witness:
  "(\<exists>s' fps. process_packet
        ((BLEWorker_init MainWindow_data_queue (real \<circ> Suc) 0)
           \<lparr>last_seq := 4, expected := 99, received := 49\<rparr>)
        (0xA0 # 5 # replicate 50 0) = Inr s'
      \<and> stats_cb_calls s' = [(50, fps)])
   \<and> (\<exists>s' fps. process_packet (BLEWorker_init MainWindow_data_queue (real \<circ> Suc) 0)
        (0xA0 # 5 # replicate 50 0) = Inr s'
      \<and> stats_cb_calls s' = [(0, fps)])"
proof -
  let ?d = "0xA0 # 5 # replicate 50 (0::byte)"
  let ?i = "BLEWorker_init MainWindow_data_queue (real \<circ> Suc) 0"
  let ?a = "?i\<lparr>last_seq := 4, expected := 99, received := 49\<rparr>"
  have len: "length ?d = 52" by simp
  from loss_percentage [of ?d ?a] len obtain s' l fps where
    a: "process_packet ?a ?d = Inr s'"
    and b: "received s' mod 50 = 0 \<longrightarrow>
              stats_cb_calls s' = stats_cb_calls ?a @ [(l, fps)]
            \<and> (expected s' = 100 \<and> received s' = 50 \<longrightarrow> l = 50)"
    by blast
  from a have "expected s' = 100 \<and> received s' = 50"
    by (auto simp: process_packet_Inr BLEWorker_init_def)
  with b have "stats_cb_calls s' = [(50, fps)]"
    by (simp add: BLEWorker_init_def)
  with a have A: "\<exists>s' fps. process_packet ?a ?d = Inr s' \<and> stats_cb_calls s' = [(50, fps)]"
    by blast
  from loss_percentage [of ?d ?i] len obtain t' l' fps' where
    c: "process_packet ?i ?d = Inr t'"
    and d: "received t' mod 50 = 0 \<longrightarrow>
              stats_cb_calls t' = stats_cb_calls ?i @ [(l', fps')]
            \<and> (expected t' = 0 \<longrightarrow> l' = 0)"
    by blast
  from c have "expected t' = 0 \<and> received t' = 0"
    by (auto simp: process_packet_Inr BLEWorker_init_def)
  with d have "stats_cb_calls t' = [(0, fps')]"
    by (simp add: BLEWorker_init_def)
  with c have B: "\<exists>s' fps. process_packet ?i ?d = Inr s' \<and> stats_cb_calls s' = [(0, fps)]"
    by blast
  from A B show ?thesis by blast
qed

section \<open>When the statistics are reported\<close>

lemma process_packets_append:
  "process_packets s (xs @ ys) =
     (case process_packets s xs of Inl e \<Rightarrow> Inl e | Inr s1 \<Rightarrow> process_packets s1 ys)"
  by (induction xs arbitrary: s) (auto split: sum.splits)

lemma stats_tick_calls_length:
  "length (stats_cb_calls (stats_tick s)) =
     length (stats_cb_calls s) + (if received s mod 50 = 0 then 1 else 0)"
  by (simp add: stats_tick_def Let_def time_time_def split: prod.splits)

lemma uint_neq_minus_1 [simp]: "uint (w::byte) \<noteq> - 1"
  using uint_ge_0 [of w] by arith

lemma div_50_step:
  "((r::int) + 1) div 50 = r div 50 + (if (r + 1) mod 50 = 0 then 1 else 0)"
proof -
  define m where "m = r mod 50"
  have b: "0 \<le> m" "m < 50" by (simp_all add: m_def)
  have d: "(r + 1) div 50 = r div 50 + (m + 1) div 50"
    using div_add1_eq [of r 1 50] by (simp add: m_def)
  have e: "(r + 1) mod 50 = (m + 1) mod 50"
    using mod_add_left_eq [of r 50 1] by (simp add: m_def)
  show ?thesis
  proof (cases "m = 49")
    case True
    then show ?thesis using d e by simp
  next
    case False
    with b have "m + 1 < 50" by simp
    with b have "(m + 1) div 50 = 0" "(m + 1) mod 50 = m + 1" by simp_all
    then show ?thesis using d e b by simp
  qed
qed

lemma run_emissions:
  "(\<forall>p \<in> set ps. length p = 52) \<Longrightarrow> last_seq s \<noteq> - 1 \<Longrightarrow>
   \<exists>s'. process_packets s ps = Inr s'
      \<and> last_seq s' \<noteq> - 1
      \<and> received s' = received s + int (length ps)
      \<and> int (length (stats_cb_calls s')) =
          int (length (stats_cb_calls s)) + (received s + int (length ps)) div 50
            - received s div 50"
proof (induction ps arbitrary: s)
  case Nil
  then show ?case by simp
next
  case (Cons p ps)
  define s1 where "s1 = (stats_tick (track_seq (uint (p ! 1)) s))
            \<lparr>data_queue := deque_append (deque_append (data_queue s) (decode_frames p ! 0))
                                        (decode_frames p ! 1)\<rparr>"
  have pp: "process_packet s p = Inr s1"
    using Cons.prems by (simp add: process_packet_Inr s1_def)
  have l1: "last_seq s1 \<noteq> - 1"
    by (simp add: s1_def)
  have r1: "received s1 = received s + 1"
    using Cons.prems by (simp add: s1_def)
  have c1: "int (length (stats_cb_calls s1)) =
      int (length (stats_cb_calls s)) + (received s + 1) div 50 - received s div 50"
    using Cons.prems by (simp add: s1_def stats_tick_calls_length div_50_step)
  have e: "received s1 + int (length ps) = received s + int (length (p # ps))"
    using r1 by simp
  from Cons.IH [of s1] Cons.prems l1 obtain s' where
    run: "process_packets s1 ps = Inr s'" and l': "last_seq s' \<noteq> - 1"
    and r': "received s' = received s1 + int (length ps)"
    and c': "int (length (stats_cb_calls s')) =
          int (length (stats_cb_calls s1)) + (received s1 + int (length ps)) div 50
            - received s1 div 50"
    by auto
  have "process_packets s (p # ps) = Inr s'"
    using pp run by simp
  moreover have "received s' = received s + int (length (p # ps))"
    using r' e by simp
  moreover have "int (length (stats_cb_calls s')) =
          int (length (stats_cb_calls s)) + (received s + int (length (p # ps))) div 50
            - received s div 50"
    unfolding c' e c1 r1 by simp
  ultimately show ?case using l' by blast
qed

text \<open>The first packet of a fresh worker is reported with loss 0 and rate 0, whatever
  the queue, the clock and the packet.\<close>

lemma first_report:
  "length data = 52 \<Longrightarrow>
   \<exists>s'. process_packet (BLEWorker_init dq clk n) data = Inr s' \<and> stats_cb_calls s' = [(0, 0)]"
  by (simp add: process_packet_Inr BLEWorker_init_def stats_tick_def track_seq_def
        time_time_def loss_def Let_def)

text \<open>
  Claim C5, as the code has it. \<open>process_packet\<close> calls \<open>stats_cb\<close> exactly when the
  \<open>received\<close> counter is a multiple of 50 after the tracker has run, and at no other
  time. The first observation only records the sequence byte and leaves \<open>received\<close>
  as it is, every later one adds 1. On a fresh worker \<open>received\<close> is 0 at the first
  observation, so that one reports too: a run of \<open>k > 0\<close> packets reports
  \<open>1 + (k - 1) div 50\<close> times.
\<close>

theorem stats_emission:
  "(length data = 52 \<longrightarrow>
      (\<exists>s'. process_packet s data = Inr s'
          \<and> received s' = (if last_seq s = - 1 then received s else received s + 1)
          \<and> last_seq s' = uint (data ! 1)
          \<and> (received s' mod 50 = 0 \<longrightarrow>
                (\<exists>l fps. stats_cb_calls s' = stats_cb_calls s @ [(l, fps)]))
          \<and> (received s' mod 50 \<noteq> 0 \<longrightarrow> stats_cb_calls s' = stats_cb_calls s)))
   \<and> ((\<forall>p \<in> set ps. length p = 52) \<longrightarrow>
      (\<exists>s'. process_packets (BLEWorker_init dq clk n) ps = Inr s'
          \<and> length (stats_cb_calls s') = (if ps = [] then 0 else 1 + (length ps - 1) div 50)))"
proof (intro conjI impI)
  assume len: "length data = 52"
  define s1 where "s1 = track_seq (uint (data ! 1)) s"
  define s' where "s' = (stats_tick s1)
            \<lparr>data_queue := deque_append (deque_append (data_queue s) (decode_frames data ! 0))
                                        (decode_frames data ! 1)\<rparr>"
  have pp: "process_packet s data = Inr s'"
    using len by (simp add: process_packet_Inr s'_def s1_def)
  have f: "received s' = (if last_seq s = - 1 then received s else received s + 1)"
    "last_seq s' = uint (data ! 1)" "received s1 = received s'"
    "stats_cb_calls s' = stats_cb_calls (stats_tick s1)" "stats_cb_calls s1 = stats_cb_calls s"
    by (simp_all add: s'_def s1_def)
  have A: "received s' mod 50 = 0 \<longrightarrow> (\<exists>l fps. stats_cb_calls s' = stats_cb_calls s @ [(l, fps)])"
    using stats_tick_calls(2) [of s1] f by auto
  have B: "received s' mod 50 \<noteq> 0 \<longrightarrow> stats_cb_calls s' = stats_cb_calls s"
    using stats_tick_calls(1) [of s1] f by auto
  show "\<exists>s'. process_packet s data = Inr s'
          \<and> received s' = (if last_seq s = - 1 then received s else received s + 1)
          \<and> last_seq s' = uint (data ! 1)
          \<and> (received s' mod 50 = 0 \<longrightarrow>
                (\<exists>l fps. stats_cb_calls s' = stats_cb_calls s @ [(l, fps)]))
          \<and> (received s' mod 50 \<noteq> 0 \<longrightarrow> stats_cb_calls s' = stats_cb_calls s)"
    by (rule exI [of _ s']) (use pp f(1,2) A B in simp)
next
  assume all: "\<forall>p \<in> set ps. length p = 52"
  let ?i = "BLEWorker_init dq clk n"
  show "\<exists>s'. process_packets ?i ps = Inr s'
          \<and> length (stats_cb_calls s') = (if ps = [] then 0 else 1 + (length ps - 1) div 50)"
  proof (cases ps)
    case Nil
    then show ?thesis by (simp add: BLEWorker_init_def)
  next
    case (Cons p qs)
    define s1 where "s1 = (stats_tick (track_seq (uint (p ! 1)) ?i))
            \<lparr>data_queue := deque_append (deque_append (data_queue ?i) (decode_frames p ! 0))
                                        (decode_frames p ! 1)\<rparr>"
    have pp: "process_packet ?i p = Inr s1"
      using all Cons by (simp add: process_packet_Inr s1_def)
    have l1: "last_seq s1 \<noteq> - 1"
      by (simp add: s1_def)
    have r1: "received s1 = 0" "length (stats_cb_calls s1) = 1"
      by (simp_all add: s1_def stats_tick_calls_length BLEWorker_init_def)
    from run_emissions [of qs s1] all Cons l1 obtain s' where
      run: "process_packets s1 qs = Inr s'"
      and cnt: "int (length (stats_cb_calls s')) =
          int (length (stats_cb_calls s1)) + (received s1 + int (length qs)) div 50
            - received s1 div 50"
      by auto
    from cnt r1 have "int (length (stats_cb_calls s')) = int (1 + length qs div 50)"
      by (simp add: zdiv_int)
    then have "length (stats_cb_calls s') = 1 + length qs div 50"
      by (simp only: int_int_eq)
    with run pp Cons show ?thesis by simp
  qed
qed

text \<open>
  Claim C5 as stated fails: the first packet a fresh worker sees is reported, with loss 0
  and rate 0.
\<close>

theorem first_observation_reports:
  "map_sum id stats_cb_calls
     (process_packet (BLEWorker_init MainWindow_data_queue (real \<circ> Suc) 0)
                     (0xA0 # 5 # replicate 50 0)) = Inr [(0, 0)]"
  by (simp add: process_packet_Inr BLEWorker_init_def stats_tick_def track_seq_def
        time_time_def loss_def Let_def)

text \<open>The report rule at a single packet and at a run of 51 packets.\<close>

theorem stats_emission_witness:
  "(\<exists>s'. process_packet (BLEWorker_init MainWindow_data_queue (real \<circ> Suc) 0)
                         (0xA0 # 5 # replicate 50 0) = Inr s'
        \<and> received s' = 0 \<and> last_seq s' = 5
        \<and> (\<exists>l fps. stats_cb_calls s' = [(l, fps)]))
   \<and> (\<exists>s'. process_packets (BLEWorker_init MainWindow_data_queue (real \<circ> Suc) 0)
              (replicate 51 (0xA0 # 5 # replicate 50 0)) = Inr s'
        \<and> length (stats_cb_calls s') = 2)"
proof -
  let ?d = "0xA0 # 5 # replicate 50 (0::byte)"
  let ?i = "BLEWorker_init MainWindow_data_queue (real \<circ> Suc) 0"
  note inst = stats_emission [of ?d ?i "replicate 51 ?d" MainWindow_data_queue "real \<circ> Suc" 0]
  have len: "length ?d = 52" by simp
  from inst len obtain s' where
    a: "process_packet ?i ?d = Inr s'"
    and b: "received s' = (if last_seq ?i = - 1 then received ?i else received ?i + 1)"
    and c: "last_seq s' = uint (?d ! 1)"
    and d: "received s' mod 50 = 0 \<longrightarrow>
                (\<exists>l fps. stats_cb_calls s' = stats_cb_calls ?i @ [(l, fps)])"
    by blast
  from b have r: "received s' = 0" by (simp add: BLEWorker_init_def)
  from c have l: "last_seq s' = 5" by simp
  from d r have "\<exists>l fps. stats_cb_calls s' = [(l, fps)]" by (simp add: BLEWorker_init_def)
  with a r l have A: "\<exists>s'. process_packet ?i ?d = Inr s' \<and> received s' = 0 \<and> last_seq s' = 5
        \<and> (\<exists>l fps. stats_cb_calls s' = [(l, fps)])"
    by blast
  have all: "\<forall>p \<in> set (replicate 51 ?d). length p = 52" by simp
  have two: "(if replicate 51 ?d = [] then 0 else 1 + (length (replicate 51 ?d) - 1) div 50)
      = (2::nat)"
    by simp
  from inst all have B: "\<exists>s'. process_packets ?i (replicate 51 ?d) = Inr s'
        \<and> length (stats_cb_calls s') = 2"
    unfolding two by blast
  from A B show ?thesis by blast
qed

section \<open>A repeated sequence number\<close>

lemma duplicate_run:
  "length p = 52 \<Longrightarrow> last_seq s = uint (p ! 1) \<Longrightarrow>
   \<exists>s'. process_packets s (replicate k p) = Inr s'
      \<and> last_seq s' = last_seq s
      \<and> expected s' = expected s
      \<and> received s' = received s + int k"
proof (induction k arbitrary: s)
  case 0
  then show ?case by simp
next
  case (Suc k)
  define s1 where "s1 = (stats_tick (track_seq (uint (p ! 1)) s))
            \<lparr>data_queue := deque_append (deque_append (data_queue s) (decode_frames p ! 0))
                                        (decode_frames p ! 1)\<rparr>"
  have pp: "process_packet s p = Inr s1"
    using Suc.prems by (simp add: process_packet_Inr s1_def)
  have f: "last_seq s1 = last_seq s" "expected s1 = expected s" "received s1 = received s + 1"
    using Suc.prems by (simp_all add: s1_def)
  from Suc.IH [of s1] Suc.prems f obtain s' where
    run: "process_packets s1 (replicate k p) = Inr s'"
    and g: "last_seq s' = last_seq s1" "expected s' = expected s1"
      "received s' = received s1 + int k"
    by auto
  have "process_packets s (replicate (Suc k) p) = Inr s'"
    using pp run by simp
  moreover have "received s' = received s + int (Suc k)"
    using g f by simp
  ultimately show ?case using g f by auto
qed

text \<open>
  Claim C10. A packet whose sequence byte equals \<open>last_seq\<close> adds 0 to \<open>expected\<close> and
  still adds 1 to \<open>received\<close>. So \<open>received\<close> can exceed \<open>expected\<close>: a fresh worker
  that sees the sequence byte 0 and then 50 times the sequence byte 1 ends with
  \<open>expected = 1\<close>, \<open>received = 50\<close>, and its last report carries a negative loss.
\<close>

theorem duplicate_sequence_negative_loss:
  "(length data = 52 \<and> last_seq s = uint (data ! 1) \<longrightarrow>
      (\<exists>s'. process_packet s data = Inr s'
          \<and> expected s' = expected s \<and> received s' = received s + 1))
   \<and> (\<exists>s' l fps.
         process_packets (BLEWorker_init dq clk n)
           ([0xA0 # 0 # replicate 50 0, 0xA0 # 1 # replicate 50 0]
              @ replicate 48 (0xA0 # 1 # replicate 50 0) @ [0xA0 # 1 # replicate 50 0]) = Inr s'
       \<and> 0 < expected s' \<and> expected s' < received s'
       \<and> stats_cb_calls s' \<noteq> [] \<and> last (stats_cb_calls s') = (l, fps) \<and> l < 0)"
proof (intro conjI impI)
  assume "length data = 52 \<and> last_seq s = uint (data ! 1)"
  then show "\<exists>s'. process_packet s data = Inr s'
          \<and> expected s' = expected s \<and> received s' = received s + 1"
    by (simp add: process_packet_Inr)
next
  let ?i = "BLEWorker_init dq clk n"
  let ?p0 = "0xA0 # 0 # replicate 50 (0::byte)"
  let ?p1 = "0xA0 # 1 # replicate 50 (0::byte)"
  obtain s2 where r2: "process_packets ?i [?p0, ?p1] = Inr s2"
    and f2: "last_seq s2 = 1" "expected s2 = 1" "received s2 = 1"
    by (simp add: process_packet_Inr BLEWorker_init_def)
  have "length ?p1 = 52" "last_seq s2 = uint (?p1 ! 1)"
    using f2 by simp_all
  from duplicate_run [OF this, of 48] obtain s3 where
    r3: "process_packets s2 (replicate 48 ?p1) = Inr s3"
    and f3: "last_seq s3 = last_seq s2" "expected s3 = expected s2"
      "received s3 = received s2 + int 48"
    by blast
  define t where "t = track_seq (uint (?p1 ! 1)) s3"
  define s4 where "s4 = (stats_tick t)
            \<lparr>data_queue := deque_append (deque_append (data_queue s3) (decode_frames ?p1 ! 0))
                                        (decode_frames ?p1 ! 1)\<rparr>"
  have r4: "process_packet s3 ?p1 = Inr s4"
    by (simp add: process_packet_Inr s4_def t_def)
  have ft: "expected t = 1" "received t = 50"
    using f2 f3 by (simp_all add: t_def)
  then have "received t mod 50 = 0" by simp
  from stats_tick_calls(2) [OF this] obtain fps where
    "stats_cb_calls (stats_tick t) = stats_cb_calls t @ [(loss (expected t) (received t), fps)]"
    by blast
  then have c4: "stats_cb_calls s4 = stats_cb_calls t @ [(loss 1 50, fps)]"
    by (simp add: s4_def ft)
  have f4: "expected s4 = 1" "received s4 = 50"
    using ft by (simp_all add: s4_def)
  have neg: "loss 1 50 < 0" by (simp add: loss_def)
  have run: "process_packets ?i ([?p0, ?p1] @ replicate 48 ?p1 @ [?p1]) = Inr s4"
    unfolding process_packets_append using r2 r3 r4 by simp
  have "0 < expected s4 \<and> expected s4 < received s4
       \<and> stats_cb_calls s4 \<noteq> [] \<and> last (stats_cb_calls s4) = (loss 1 50, fps) \<and> loss 1 50 < 0"
    using f4 c4 neg by simp
  with run show "\<exists>s' l fps.
         process_packets ?i ([?p0, ?p1] @ replicate 48 ?p1 @ [?p1]) = Inr s'
       \<and> 0 < expected s' \<and> expected s' < received s'
       \<and> stats_cb_calls s' \<noteq> [] \<and> last (stats_cb_calls s') = (l, fps) \<and> l < 0"
    by blast
qed

text \<open>A repeated sequence byte 5 on a worker that has counted three packets.\<close>

theorem duplicate_sequence_negative_loss_witness:
  "\<exists>s'. process_packet ((BLEWorker_init MainWindow_data_queue (real \<circ> Suc) 0)
                           \<lparr>last_seq := 5, expected := 3, received := 3\<rparr>)
                        (0xA0 # 5 # replicate 50 0) = Inr s'
        \<and> expected s' = 3 \<and> received s' = 4"
  using duplicate_sequence_negative_loss
    [of "0xA0 # 5 # replicate 50 0"
        "(BLEWorker_init MainWindow_data_queue (real \<circ> Suc) 0)
           \<lparr>last_seq := 5, expected := 3, received := 3\<rparr>"
        MainWindow_data_queue "real \<circ> Suc" 0]
  by (simp add: BLEWorker_init_def)

section \<open>The extraction loop\<close>

lemma process_packet_total:
  "50 \<le> length data \<Longrightarrow> \<exists>s'. process_packet s data = Inr s' \<and> rx_buffer s' = rx_buffer s"
  by (simp add: process_packet_Inr)

lemma extract_loop_rest:
  "\<exists>s'. extract_loop s = Inr s' \<and> length (rx_buffer s') < 52"
proof (induction s rule: extract_loop.induct)
  case (1 s)
  show ?case
  proof (cases "52 \<le> length (rx_buffer s)")
    case False
    then show ?thesis by (simp add: extract_loop.simps [of s])
  next
    case long: True
    show ?thesis
    proof (cases "rx_buffer s ! 0 \<noteq> 0xA0")
      case True
      with long "1.IH"(1) show ?thesis by (simp add: extract_loop.simps [of s])
    next
      case False
      from long obtain s' where
        pp: "process_packet (s\<lparr>rx_buffer := drop 52 (rx_buffer s)\<rparr>) (take 52 (rx_buffer s)) = Inr s'"
        using process_packet_total [of "take 52 (rx_buffer s)" "s\<lparr>rx_buffer := drop 52 (rx_buffer s)\<rparr>"]
        by auto
      from "1.IH"(2) [OF long False pp] pp long False show ?thesis
        by (simp add: extract_loop.simps [of s])
    qed
  qed
qed

lemma extract_loop_append:
  "extract_loop (s\<lparr>rx_buffer := rx_buffer s @ ys\<rparr>) =
     (case extract_loop s of
        Inl e \<Rightarrow> Inl e
      | Inr s1 \<Rightarrow> extract_loop (s1\<lparr>rx_buffer := rx_buffer s1 @ ys\<rparr>))"
proof (induction s rule: extract_loop.induct)
  case (1 s)
  let ?b = "rx_buffer s"
  let ?t = "s\<lparr>rx_buffer := ?b @ ys\<rparr>"
  show ?case
  proof (cases "52 \<le> length ?b")
    case False
    then show ?thesis by (simp add: extract_loop.simps [of s])
  next
    case long: True
    then have ne: "?b \<noteq> []" by auto
    have longt: "52 \<le> length (rx_buffer ?t)" using long by simp
    have hd: "rx_buffer ?t ! 0 = ?b ! 0" using ne by (simp add: nth_append)
    show ?thesis
    proof (cases "?b ! 0 \<noteq> 0xA0")
      case True
      have "extract_loop ?t = extract_loop (?t\<lparr>rx_buffer := tl (rx_buffer ?t)\<rparr>)"
        using longt hd True by (subst extract_loop.simps) simp
      also have "?t\<lparr>rx_buffer := tl (rx_buffer ?t)\<rparr>
          = (s\<lparr>rx_buffer := tl ?b\<rparr>)\<lparr>rx_buffer := rx_buffer (s\<lparr>rx_buffer := tl ?b\<rparr>) @ ys\<rparr>"
        using ne by simp
      also have "extract_loop \<dots> =
          (case extract_loop (s\<lparr>rx_buffer := tl ?b\<rparr>) of
             Inl e \<Rightarrow> Inl e
           | Inr s1 \<Rightarrow> extract_loop (s1\<lparr>rx_buffer := rx_buffer s1 @ ys\<rparr>))"
        by (rule "1.IH"(1) [OF long True])
      also have "extract_loop (s\<lparr>rx_buffer := tl ?b\<rparr>) = extract_loop s"
        using long True by (simp add: extract_loop.simps [of s])
      finally show ?thesis .
    next
      case False
      let ?p = "take 52 ?b"
      let ?u = "s\<lparr>rx_buffer := drop 52 ?b\<rparr>"
      from long obtain s' where pp: "process_packet ?u ?p = Inr s'"
        and rb: "rx_buffer s' = drop 52 ?b"
        using process_packet_total [of ?p ?u] by auto
      have e1: "drop 52 (?b @ ys) = drop 52 ?b @ ys" using long by simp
      have e2: "take 52 (?b @ ys) = ?p" using long by simp
      have ppt: "process_packet (s\<lparr>rx_buffer := drop 52 ?b @ ys\<rparr>) ?p
          = Inr (s'\<lparr>rx_buffer := drop 52 ?b @ ys\<rparr>)"
        using process_packet_rx_indep [where s = "?u" and b = "drop 52 ?b @ ys" and data = "?p"] pp
        by simp
      have "extract_loop ?t = extract_loop (s'\<lparr>rx_buffer := rx_buffer s' @ ys\<rparr>)"
        using longt hd False by (subst extract_loop.simps) (simp add: e1 e2 ppt rb del: take_append drop_append)
      also have "\<dots> = (case extract_loop s' of
             Inl e \<Rightarrow> Inl e
           | Inr s1 \<Rightarrow> extract_loop (s1\<lparr>rx_buffer := rx_buffer s1 @ ys\<rparr>))"
        by (rule "1.IH"(2) [OF long False pp])
      also have "extract_loop s' = extract_loop s"
        using long False pp by (simp add: extract_loop.simps [of s])
      finally show ?thesis .
    qed
  qed
qed

lemma notification_handler_append:
  "notification_handler s (a @ b) =
     (case notification_handler s a of
        Inl e \<Rightarrow> Inl e
      | Inr s1 \<Rightarrow> notification_handler s1 b)"
  using extract_loop_append [of "s\<lparr>rx_buffer := rx_buffer s @ a\<rparr>" b]
  by (simp add: notification_handler_def split: sum.splits)

lemma notification_handler_rest:
  "\<exists>s'. notification_handler s data = Inr s' \<and> length (rx_buffer s') < 52"
  unfolding notification_handler_def by (rule extract_loop_rest)

lemma notification_handler_nothing:
  "length (rx_buffer s) < 52 \<Longrightarrow> notification_handler s [] = Inr s"
  by (simp add: notification_handler_def extract_loop.simps [of s])

lemma notifications_concat:
  "length (rx_buffer s) < 52 \<Longrightarrow> notifications s chunks = notification_handler s (concat chunks)"
proof (induction chunks arbitrary: s)
  case Nil
  then show ?case by (simp add: notification_handler_nothing)
next
  case (Cons c cs)
  from notification_handler_rest [of s c] obtain s1 where
    h: "notification_handler s c = Inr s1" and r: "length (rx_buffer s1) < 52"
    by blast
  from Cons.IH [OF r] h show ?case
    by (simp add: notification_handler_append)
qed


text \<open>The same facts for the steps of the loop, and the link between the two views:
  the worker runs \<open>process_packet\<close> on exactly the packets among the steps, in order.\<close>

lemma extract_steps_short:
  "length buf < 52 \<Longrightarrow> extract_steps buf = ([], buf)"
  by (simp add: extract_steps.simps [of buf])

lemma extract_steps_append:
  "extract_steps (xs @ ys) =
     (let (st, r) = extract_steps xs; (st', r') = extract_steps (r @ ys) in (st @ st', r'))"
proof (induction xs rule: extract_steps.induct)
  case (1 buf)
  show ?case
  proof (cases "52 \<le> length buf")
    case False
    then show ?thesis by (simp add: extract_steps_short split: prod.splits)
  next
    case long: True
    then have ne: "buf \<noteq> []" by auto
    have e0: "(buf @ ys) ! 0 = buf ! 0" using ne by (simp add: nth_append)
    have e1: "drop 52 (buf @ ys) = drop 52 buf @ ys" using long by simp
    have e2: "take 52 (buf @ ys) = take 52 buf" using long by simp
    have e3: "tl (buf @ ys) = tl buf @ ys" using ne by simp
    have longt: "52 \<le> length (buf @ ys)" using long by simp
    show ?thesis
    proof (cases "buf ! 0 \<noteq> 0xA0")
      case True
      have "extract_steps (buf @ ys) =
          (let (st, r) = extract_steps (tl buf @ ys) in (Discard (buf ! 0) # st, r))"
        using longt True by (subst extract_steps.simps) (simp add: e0 e3 del: tl_append2)
      moreover have "extract_steps buf =
          (let (st, r) = extract_steps (tl buf) in (Discard (buf ! 0) # st, r))"
        using long True by (subst extract_steps.simps) simp
      ultimately show ?thesis
        using "1.IH"(1) [OF long True] by (simp split: prod.splits)
    next
      case False
      have "extract_steps (buf @ ys) =
          (let (st, r) = extract_steps (drop 52 buf @ ys) in (Packet (take 52 buf) # st, r))"
        using longt False
        by (subst extract_steps.simps) (simp add: e0 e1 e2 del: take_append drop_append)
      moreover have "extract_steps buf =
          (let (st, r) = extract_steps (drop 52 buf) in (Packet (take 52 buf) # st, r))"
        using long False by (subst extract_steps.simps) simp
      ultimately show ?thesis
        using "1.IH"(2) [OF long False] by (simp split: prod.splits)
    qed
  qed
qed

lemma extract_steps_rest: "length (snd (extract_steps buf)) < 52"
proof (induction buf rule: extract_steps.induct)
  case (1 buf)
  show ?case
  proof (cases "52 \<le> length buf")
    case False
    then show ?thesis by (simp add: extract_steps_short)
  next
    case long: True
    show ?thesis
    proof (cases "buf ! 0 \<noteq> 0xA0")
      case True
      with long "1.IH"(1) show ?thesis
        by (subst extract_steps.simps) (auto split: prod.splits)
    next
      case False
      with long "1.IH"(2) show ?thesis
        by (subst extract_steps.simps) (auto split: prod.splits)
    qed
  qed
qed

lemma feed_steps_concat:
  "length acc < 52 \<Longrightarrow> feed_steps acc chunks = extract_steps (acc @ concat chunks)"
proof (induction chunks arbitrary: acc)
  case Nil
  then show ?case by (simp add: extract_steps_short)
next
  case (Cons c cs)
  obtain st r where e: "extract_steps (acc @ c) = (st, r)" by force
  then have "length r < 52" using extract_steps_rest [of "acc @ c"] by simp
  from Cons.IH [OF this] e show ?case
    using extract_steps_append [of "acc @ c" "concat cs"]
    by (simp split: prod.splits)
qed


lemma process_packets_rx_indep:
  "process_packets (s\<lparr>rx_buffer := b\<rparr>) ps =
     map_sum id (\<lambda>s'. s'\<lparr>rx_buffer := b\<rparr>) (process_packets s ps)"
proof (induction ps arbitrary: s)
  case Nil
  then show ?case by simp
next
  case (Cons p ps)
  show ?case
  proof (cases "process_packet s p")
    case (Inl e)
    then show ?thesis by (simp add: process_packet_rx_indep)
  next
    case (Inr s1)
    then show ?thesis using Cons.IH [of s1] by (simp add: process_packet_rx_indep)
  qed
qed

lemma extract_loop_steps:
  "extract_loop s =
     (case process_packets s (packets (fst (extract_steps (rx_buffer s)))) of
        Inl e \<Rightarrow> Inl e
      | Inr s' \<Rightarrow> Inr (s'\<lparr>rx_buffer := snd (extract_steps (rx_buffer s))\<rparr>))"
proof (induction s rule: extract_loop.induct)
  case (1 s)
  let ?b = "rx_buffer s"
  show ?case
  proof (cases "52 \<le> length ?b")
    case False
    then show ?thesis by (simp add: extract_loop.simps [of s] extract_steps_short)
  next
    case long: True
    show ?thesis
    proof (cases "?b ! 0 \<noteq> 0xA0")
      case True
      let ?u = "s\<lparr>rx_buffer := tl ?b\<rparr>"
      obtain st r where e: "extract_steps (tl ?b) = (st, r)" by force
      have es: "extract_steps ?b = (Discard (?b ! 0) # st, r)"
        using long True e by (subst extract_steps.simps) simp
      have "extract_loop s = extract_loop ?u"
        using long True by (simp add: extract_loop.simps [of s])
      also have "\<dots> = (case process_packets ?u (packets st) of
          Inl e \<Rightarrow> Inl e | Inr s' \<Rightarrow> Inr (s'\<lparr>rx_buffer := r\<rparr>))"
        using "1.IH"(1) [OF long True] e by (simp split: sum.splits)
      also have "\<dots> = (case process_packets s (packets st) of
          Inl e \<Rightarrow> Inl e | Inr s' \<Rightarrow> Inr (s'\<lparr>rx_buffer := r\<rparr>))"
        by (cases "process_packets s (packets st)") (simp_all add: process_packets_rx_indep)
      finally show ?thesis using es by (simp split: sum.splits)
    next
      case False
      let ?p = "take 52 ?b"
      let ?u = "s\<lparr>rx_buffer := drop 52 ?b\<rparr>"
      obtain st r where e: "extract_steps (drop 52 ?b) = (st, r)" by force
      have es: "extract_steps ?b = (Packet ?p # st, r)"
        using long False e by (subst extract_steps.simps) simp
      from long obtain s0 where p0: "process_packet s ?p = Inr s0"
        using process_packet_total [of ?p s] by auto
      then have pu: "process_packet ?u ?p = Inr (s0\<lparr>rx_buffer := drop 52 ?b\<rparr>)"
        by (simp add: process_packet_rx_indep)
      let ?s' = "s0\<lparr>rx_buffer := drop 52 ?b\<rparr>"
      have "extract_loop s = extract_loop ?s'"
        using long False pu by (simp add: extract_loop.simps [of s])
      also have "\<dots> = (case process_packets ?s' (packets st) of
          Inl e \<Rightarrow> Inl e | Inr s' \<Rightarrow> Inr (s'\<lparr>rx_buffer := r\<rparr>))"
        using "1.IH"(2) [OF long False pu] e by (simp split: sum.splits)
      also have "\<dots> = (case process_packets s0 (packets st) of
          Inl e \<Rightarrow> Inl e | Inr s' \<Rightarrow> Inr (s'\<lparr>rx_buffer := r\<rparr>))"
        by (cases "process_packets s0 (packets st)") (simp_all add: process_packets_rx_indep)
      finally show ?thesis using es p0 by (simp split: sum.splits)
    qed
  qed
qed

lemma garbage_then_frame:
  "(\<forall>b \<in> set g. b \<noteq> 0xA0) \<Longrightarrow> length f = 52 \<Longrightarrow> f ! 0 = 0xA0 \<Longrightarrow>
   extract_steps (g @ f) = (map Discard g @ [Packet f], [])"
proof (induction g)
  case Nil
  have "extract_steps [] = ([], [])" by (simp add: extract_steps_short)
  with Nil show ?case by (subst extract_steps.simps) simp
next
  case (Cons b g)
  then have "extract_steps (g @ f) = (map Discard g @ [Packet f], [])" by simp
  with Cons.prems show ?case by (subst extract_steps.simps) simp
qed

lemma packets_length:
  "map length (packets (fst (extract_steps buf)))
     = replicate (length (packets (fst (extract_steps buf)))) 52"
proof (induction buf rule: extract_steps.induct)
  case (1 buf)
  show ?case
  proof (cases "52 \<le> length buf")
    case False
    then show ?thesis by (simp add: extract_steps_short)
  next
    case long: True
    show ?thesis
    proof (cases "buf ! 0 \<noteq> 0xA0")
      case True
      with long "1.IH"(1) show ?thesis
        by (subst (1 2) extract_steps.simps) (auto split: prod.splits)
    next
      case False
      with long "1.IH"(2) show ?thesis
        by (subst (1 2) extract_steps.simps) (auto split: prod.splits)
    qed
  qed
qed

lemma feed_steps_single: "feed_steps acc [c] = extract_steps (acc @ c)"
  by (simp split: prod.splits)

lemma notifications_single: "notifications s [c] = notification_handler s c"
  by (simp split: sum.splits)


text \<open>
  Claim C9. From every worker state and for every chunk, \<open>notification_handler\<close> returns,
  and the buffer it leaves holds fewer than 52 bytes: the loop runs as long as 52 bytes
  or more are buffered.
\<close>

theorem accumulator_at_rest:
  "\<exists>s'. notification_handler s data = Inr s'
      \<and> length (rx_buffer s') < 52
      \<and> rx_buffer s' = snd (feed_steps (rx_buffer s) [data])"
proof -
  let ?t = "s\<lparr>rx_buffer := rx_buffer s @ data\<rparr>"
  from extract_loop_rest [of ?t] obtain s' where
    a: "extract_loop ?t = Inr s'" and b: "length (rx_buffer s') < 52"
    by blast
  from a extract_loop_steps [of ?t]
  have "rx_buffer s' = snd (extract_steps (rx_buffer s @ data))"
    by (auto split: sum.splits)
  with a b show ?thesis
    by (simp add: notification_handler_def feed_steps_single)
qed

text \<open>
  Claim C2. From an empty buffer, one call per chunk hands the same packets, in the same
  order, to \<open>process_packet\<close> as a single call with the whole stream; every packet has
  52 bytes. Given the same clock readings, the worker ends in the same state either way,
  which is the state reached by \<open>process_packet\<close> on these packets in order, with the
  unconsumed bytes in the buffer.
\<close>

theorem chunk_boundary_independence:
  "packets (fst (feed_steps [] chunks)) = packets (fst (feed_steps [] [concat chunks]))
   \<and> map length (packets (fst (feed_steps [] chunks)))
       = replicate (length (packets (fst (feed_steps [] chunks)))) 52
   \<and> notifications (s\<lparr>rx_buffer := []\<rparr>) chunks
       = notifications (s\<lparr>rx_buffer := []\<rparr>) [concat chunks]
   \<and> notifications (s\<lparr>rx_buffer := []\<rparr>) chunks
       = (case process_packets (s\<lparr>rx_buffer := []\<rparr>) (packets (fst (feed_steps [] chunks))) of
            Inl e \<Rightarrow> Inl e
          | Inr s' \<Rightarrow> Inr (s'\<lparr>rx_buffer := snd (feed_steps [] chunks)\<rparr>))"
proof -
  let ?s = "s\<lparr>rx_buffer := []\<rparr>"
  have f: "feed_steps [] chunks = extract_steps (concat chunks)"
    using feed_steps_concat [of "[]" chunks] by simp
  have n: "notifications ?s chunks = notification_handler ?s (concat chunks)"
    by (rule notifications_concat) simp
  have "notification_handler ?s (concat chunks)
      = (case process_packets (s\<lparr>rx_buffer := concat chunks\<rparr>)
                (packets (fst (extract_steps (concat chunks)))) of
            Inl e \<Rightarrow> Inl e
          | Inr s' \<Rightarrow> Inr (s'\<lparr>rx_buffer := snd (extract_steps (concat chunks))\<rparr>))"
    using extract_loop_steps [of "s\<lparr>rx_buffer := concat chunks\<rparr>"]
    by (simp add: notification_handler_def split: sum.splits)
  also have "\<dots> = (case process_packets ?s (packets (fst (extract_steps (concat chunks)))) of
            Inl e \<Rightarrow> Inl e
          | Inr s' \<Rightarrow> Inr (s'\<lparr>rx_buffer := snd (extract_steps (concat chunks))\<rparr>))"
    by (cases "process_packets s (packets (fst (extract_steps (concat chunks))))")
       (simp_all add: process_packets_rx_indep)
  finally have l: "notification_handler ?s (concat chunks)
      = (case process_packets ?s (packets (fst (extract_steps (concat chunks)))) of
            Inl e \<Rightarrow> Inl e
          | Inr s' \<Rightarrow> Inr (s'\<lparr>rx_buffer := snd (extract_steps (concat chunks))\<rparr>))" .
  show ?thesis
    unfolding feed_steps_single notifications_single f n
    using l packets_length [of "concat chunks"] by simp
qed

text \<open>
  Claim C7. From an empty buffer, a chunk made of garbage bytes, none of them 0xA0,
  followed by a 52-byte frame that starts with 0xA0: the loop pops the garbage bytes one
  by one, in order, then hands the frame to \<open>process_packet\<close>, and leaves the buffer
  empty.
\<close>

theorem resynchronisation:
  "(\<forall>b \<in> set g. b \<noteq> 0xA0) \<and> length f = 52 \<and> f ! 0 = 0xA0 \<longrightarrow>
     feed_steps [] [g @ f] = (map Discard g @ [Packet f], [])
   \<and> length (discarded (fst (feed_steps [] [g @ f]))) = length g
   \<and> notification_handler (s\<lparr>rx_buffer := []\<rparr>) (g @ f)
       = process_packet (s\<lparr>rx_buffer := []\<rparr>) f"
proof
  assume h: "(\<forall>b \<in> set g. b \<noteq> 0xA0) \<and> length f = 52 \<and> f ! 0 = 0xA0"
  then have e: "extract_steps (g @ f) = (map Discard g @ [Packet f], [])"
    by (simp add: garbage_then_frame)
  have d: "discarded (map Discard g @ [Packet f]) = g"
    by (induction g) simp_all
  have p: "packets (map Discard g @ [Packet f]) = [f]"
    by (induction g) simp_all
  have "notification_handler (s\<lparr>rx_buffer := []\<rparr>) (g @ f)
      = (case process_packet (s\<lparr>rx_buffer := g @ f\<rparr>) f of
           Inl e \<Rightarrow> Inl e | Inr s' \<Rightarrow> Inr (s'\<lparr>rx_buffer := []\<rparr>))"
    using extract_loop_steps [of "s\<lparr>rx_buffer := g @ f\<rparr>"] e p
    by (simp add: notification_handler_def split: sum.splits)
  also have "\<dots> = process_packet (s\<lparr>rx_buffer := []\<rparr>) f"
    by (cases "process_packet s f") (simp_all add: process_packet_rx_indep)
  finally show "feed_steps [] [g @ f] = (map Discard g @ [Packet f], [])
   \<and> length (discarded (fst (feed_steps [] [g @ f]))) = length g
   \<and> notification_handler (s\<lparr>rx_buffer := []\<rparr>) (g @ f)
       = process_packet (s\<lparr>rx_buffer := []\<rparr>) f"
    using e d by (simp add: feed_steps_single)
qed

text \<open>Two garbage bytes before a frame with sequence byte 5.\<close>

theorem resynchronisation_witness:
  "feed_steps [] [[0x00, 0x17] @ (0xA0 # 5 # replicate 50 0)]
     = ([Discard 0x00, Discard 0x17, Packet (0xA0 # 5 # replicate 50 0)], [])
   \<and> notification_handler ((BLEWorker_init MainWindow_data_queue (real \<circ> Suc) 0)\<lparr>rx_buffer := []\<rparr>)
        ([0x00, 0x17] @ (0xA0 # 5 # replicate 50 0))
       = process_packet ((BLEWorker_init MainWindow_data_queue (real \<circ> Suc) 0)\<lparr>rx_buffer := []\<rparr>)
           (0xA0 # 5 # replicate 50 0)"
  using resynchronisation [of "[0x00, 0x17]" "0xA0 # 5 # replicate 50 0"
      "BLEWorker_init MainWindow_data_queue (real \<circ> Suc) 0"]
  by simp

section \<open>The sample queue\<close>

lemma deque_append_fields:
  "maxlen (deque_append d v) = maxlen d"
  "items (deque_append d v) =
     (if length (items d) + 1 > maxlen d then tl (items d @ [v]) else items d @ [v])"
  by (simp_all add: deque_append_def Let_def)

lemma foldl_deque_append:
  "length (items d) \<le> maxlen d \<Longrightarrow>
   foldl deque_append d vs =
     d\<lparr>items := drop (length (items d) + length vs - maxlen d) (items d @ vs)\<rparr>"
proof (induction vs arbitrary: d)
  case Nil
  then show ?case by simp
next
  case (Cons v vs)
  let ?d = "deque_append d v"
  show ?case
  proof (cases "length (items d) + 1 > maxlen d")
    case True
    with Cons.prems have full: "length (items d) = maxlen d" by simp
    have i: "items ?d = tl (items d @ [v])" using True by (simp add: deque_append_fields)
    then have l: "length (items ?d) = maxlen d" using full by simp
    have t: "tl (items d @ [v]) @ vs = tl (items d @ v # vs)"
      by (cases "items d") simp_all
    have "length (items ?d) \<le> maxlen ?d"
      using l by (simp add: deque_append_fields(1))
    then have "foldl deque_append ?d vs =
        ?d\<lparr>items := drop (length (items ?d) + length vs - maxlen ?d) (items ?d @ vs)\<rparr>"
      by (rule Cons.IH)
    also have "drop (length (items ?d) + length vs - maxlen ?d) (items ?d @ vs)
        = drop (length vs) (tl (items d @ v # vs))"
      unfolding l deque_append_fields(1) i t by (simp add: full)
    also have "\<dots> = drop (Suc (length vs)) (items d @ v # vs)"
      by (simp only: drop_Suc)
    also have "Suc (length vs) = length (items d) + length (v # vs) - maxlen d"
      using full by simp
    finally have "foldl deque_append ?d vs =
        ?d\<lparr>items := drop (length (items d) + length (v # vs) - maxlen d) (items d @ v # vs)\<rparr>" .
    moreover have "?d\<lparr>items := X\<rparr> = d\<lparr>items := X\<rparr>" for X
      by (simp add: deque_append_def Let_def)
    ultimately show ?thesis
      by (simp only: foldl_Cons)
  next
    case False
    have i: "items ?d = items d @ [v]" using False by (simp add: deque_append_fields)
    have "length (items ?d) \<le> maxlen ?d"
      using False by (simp add: i deque_append_fields(1))
    then have "foldl deque_append ?d vs =
        ?d\<lparr>items := drop (length (items ?d) + length vs - maxlen ?d) (items ?d @ vs)\<rparr>"
      by (rule Cons.IH)
    moreover have "drop (length (items ?d) + length vs - maxlen ?d) (items ?d @ vs)
        = drop (length (items d) + length (v # vs) - maxlen d) (items d @ v # vs)"
      unfolding i deque_append_fields(1) by simp
    moreover have "?d\<lparr>items := X\<rparr> = d\<lparr>items := X\<rparr>" for X
      by (simp add: deque_append_def Let_def)
    ultimately show ?thesis
      by (simp only: foldl_Cons)
  qed
qed

lemma popleft_all_items:
  "popleft_all d data = (data @ items d, d\<lparr>items := []\<rparr>)"
proof (induction "items d" arbitrary: d data)
  case Nil
  then have "deque_popleft d = Inl IndexError" by (simp add: deque_popleft_def)
  moreover have "d\<lparr>items := []\<rparr> = d" using Nil by simp
  ultimately show ?case using Nil by (subst popleft_all.simps) simp
next
  case (Cons x xs)
  have p: "deque_popleft d = Inr (x, d\<lparr>items := xs\<rparr>)"
    using Cons(2) [symmetric] by (simp add: deque_popleft_def)
  have "popleft_all (d\<lparr>items := xs\<rparr>) (data @ [x])
      = ((data @ [x]) @ items (d\<lparr>items := xs\<rparr>), (d\<lparr>items := xs\<rparr>)\<lparr>items := []\<rparr>)"
    by (rule Cons(1)) simp
  with p Cons(2) [symmetric] show ?case
    by (subst popleft_all.simps) simp
qed

text \<open>
  What \<open>update_plot\<close> as a whole does with the drained vectors: nothing when the queue
  was empty; with at most 1250 vectors of 8 samples, every row is rolled and ends with
  the new samples of its channel; and a ValueError at line 254 when more than 1250
  vectors were drained, as after \<open>maxlen + 5\<close> appends to the queue of the main window.
\<close>

lemma update_plot_nothing:
  "items q = [] \<Longrightarrow> update_plot q plot_buffer = Inr (q, plot_buffer)"
proof -
  assume e: "items q = []"
  then have "q\<lparr>items := []\<rparr> = q" by simp
  with e show ?thesis by (simp add: update_plot_def popleft_all_items)
qed

lemma update_plot_too_many:
  "1250 < length (items q) \<Longrightarrow> update_plot q plot_buffer = Inl ValueError"
  by (auto simp: update_plot_def popleft_all_items Let_def)

lemma update_plot_plots:
  assumes "items q \<noteq> []" and "length (items q) \<le> 1250"
    and "list_all (\<lambda>v. length v = 8) (items q)"
  shows "update_plot q plot_buffer =
     Inr (q\<lparr>items := []\<rparr>,
          map (\<lambda>i. take (1250 - length (items q))
                       (map (rotate (length (items q))) plot_buffer ! i)
                     @ map (\<lambda>v. v ! i) (items q))
              [0..<8])"
proof -
  from assms(1) have "hd (items q) \<in> set (items q)" by simp
  with assms(3) have m: "length (hd (items q)) = 8" by (simp add: list_all_iff)
  show ?thesis
    using assms by (simp add: update_plot_def popleft_all_items Let_def m)
qed

lemma update_plot_after_overflow:
  "items d = [] \<Longrightarrow> maxlen d = 2500 \<Longrightarrow> length vs = 2505 \<Longrightarrow>
   update_plot (foldl deque_append d vs) plot_buffer = Inl ValueError"
proof -
  assume h: "items d = []" "maxlen d = 2500" "length vs = 2505"
  then have "foldl deque_append d vs = d\<lparr>items := drop 5 vs\<rparr>"
    using foldl_deque_append [of d vs] by simp
  with h show ?thesis by (simp add: update_plot_too_many)
qed



section \<open>Decoding the channels\<close>

lemma take_bit_uint_byte: "take_bit 8 (uint (b::byte)) = uint b"
  by (simp add: take_bit_int_eq_self uint_lt2p [where 'a = 8, simplified])

lemma or_byte_shift:
  "uint (b::byte) OR push_bit 8 x = uint b + 256 * x"
proof -
  have "uint b OR push_bit 8 x = concat_bit 8 (uint b) x"
    by (simp add: concat_bit_def take_bit_uint_byte)
  also have "\<dots> = take_bit 8 (uint b) + push_bit 8 x"
    by (rule concat_bit_eq)
  finally show ?thesis
    by (simp add: take_bit_uint_byte push_bit_eq_mult)
qed

lemma be24:
  "push_bit 16 (uint (b0::byte)) OR push_bit 8 (uint (b1::byte)) OR uint (b2::byte)
     = 65536 * uint b0 + 256 * uint b1 + uint b2"
proof -
  have "push_bit 16 (uint b0) OR push_bit 8 (uint b1) OR uint b2
      = uint b2 OR push_bit 8 (uint b1 OR push_bit 8 (uint b0))"
    by (simp add: push_bit_or ac_simps)
  also have "\<dots> = uint b2 + 256 * (uint b1 + 256 * uint b0)"
    by (simp only: or_byte_shift)
  finally show ?thesis by simp
qed

lemma sign_bit:
  "0 \<le> u \<Longrightarrow> u < 16777216 \<Longrightarrow> (u AND 0x800000 \<noteq> 0) = (8388608 \<le> (u::int))"
proof -
  assume a: "0 \<le> u" "u < 16777216"
  have "(u AND 2 ^ 23 = 0) = (\<not> bit u 23)"
    by (rule and_exp_eq_0_iff_not_bit)
  moreover have "bit u 23 = odd (u div 2 ^ 23)"
    by (rule bit_iff_odd)
  moreover have "odd (u div 8388608) = (8388608 \<le> u)"
  proof (cases "8388608 \<le> u")
    case True
    with a have "u div 8388608 = 1" by simp
    with True show ?thesis by simp
  next
    case False
    with a have "u div 8388608 = 0" by simp
    with False show ?thesis by simp
  qed
  ultimately show ?thesis by simp
qed


lemma decode_val_arith:
  "decode_val data idx =
     (let u = 65536 * uint (data ! idx) + 256 * uint (data ! (idx + 1)) + uint (data ! (idx + 2))
      in if 8388608 \<le> u then u - 16777216 else u)"
proof -
  let ?u = "65536 * uint (data ! idx) + 256 * uint (data ! (idx + 1)) + uint (data ! (idx + 2))"
  have b: "uint (data ! idx) < 256" "uint (data ! (idx + 1)) < 256" "uint (data ! (idx + 2)) < 256"
    using uint_lt2p [where 'a = 8] by simp_all
  have "0 \<le> ?u" by simp
  moreover have "?u < 16777216" using b by simp
  ultimately have "(?u AND 0x800000 \<noteq> 0) = (8388608 \<le> ?u)"
    by (rule sign_bit)
  then show ?thesis
    by (simp add: decode_val_def be24 Let_def)
qed

lemma decode_frames_nth:
  "sub < 2 \<Longrightarrow> i < 8 \<Longrightarrow>
   decode_frames data ! sub ! i
     = real_of_int (decode_val data ([2, 26] ! sub + i * 3)) * SCALE_FACTOR"
proof -
  assume a: "sub < 2" "i < 8"
  then have "sub = 0 \<or> sub = 1" by auto
  then show ?thesis
    using a by (auto simp: decode_frames_def simp del: upt_Suc)
qed

text \<open>
  Claim C1. In a 52-byte packet the field of channel \<open>i < 8\<close> of sub-frame
  \<open>sub < 2\<close> starts at \<open>idx = [2, 26] ! sub + 3 * i\<close> and ends before byte 50. With
  \<open>u\<close> its three bytes read as an unsigned big-endian number, the decoded sample is
  \<open>u\<close>, less \<open>2 ^ 24\<close> when bit \<open>0x800000\<close> of \<open>u\<close> is set (that is, when
  \<open>u \<ge> 2 ^ 23\<close>), times \<open>SCALE_FACTOR = (4.5 / 8388607 / 24.0) * 1000000\<close>. So the
  code \<open>0x800000\<close> decodes to \<open>-8388608 * SCALE_FACTOR\<close> and \<open>0x7FFFFF\<close> to
  \<open>8388607 * SCALE_FACTOR\<close>. \<open>process_packet\<close> appends the two vectors of 8 samples
  to the queue, sub-frame 0 first.
\<close>

theorem decode_channels:
  "(length data = 52 \<and> sub < 2 \<and> i < 8 \<and> idx = [2, 26] ! sub + i * 3
      \<and> u = 65536 * uint (data ! idx) + 256 * uint (data ! (idx + 1))
               + uint (data ! (idx + 2)) \<longrightarrow>
        idx + 2 < 50
      \<and> decode_frames data ! sub ! i
          = real_of_int (if u AND 0x800000 \<noteq> 0 then u - 2 ^ 24 else u) * SCALE_FACTOR
      \<and> ((u AND 0x800000 \<noteq> 0) = (2 ^ 23 \<le> u))
      \<and> (u = 0x800000 \<longrightarrow> decode_frames data ! sub ! i = - 8388608 * SCALE_FACTOR)
      \<and> (u = 0x7FFFFF \<longrightarrow> decode_frames data ! sub ! i = 8388607 * SCALE_FACTOR))
   \<and> SCALE_FACTOR = (4.5 / 8388607 / 24.0) * 1000000
   \<and> map length (decode_frames data) = [8, 8]
   \<and> (length data = 52 \<longrightarrow>
        (\<exists>s'. process_packet s data = Inr s'
           \<and> data_queue s' = deque_append (deque_append (data_queue s) (decode_frames data ! 0))
                                          (decode_frames data ! 1)))"
proof -
  have A: "length data = 52 \<and> sub < 2 \<and> i < 8 \<and> idx = [2, 26] ! sub + i * 3
      \<and> u = 65536 * uint (data ! idx) + 256 * uint (data ! (idx + 1))
               + uint (data ! (idx + 2)) \<longrightarrow>
        idx + 2 < 50
      \<and> decode_frames data ! sub ! i
          = real_of_int (if u AND 0x800000 \<noteq> 0 then u - 2 ^ 24 else u) * SCALE_FACTOR
      \<and> ((u AND 0x800000 \<noteq> 0) = (2 ^ 23 \<le> u))
      \<and> (u = 0x800000 \<longrightarrow> decode_frames data ! sub ! i = - 8388608 * SCALE_FACTOR)
      \<and> (u = 0x7FFFFF \<longrightarrow> decode_frames data ! sub ! i = 8388607 * SCALE_FACTOR)"
  proof
    assume h: "length data = 52 \<and> sub < 2 \<and> i < 8 \<and> idx = [2, 26] ! sub + i * 3
      \<and> u = 65536 * uint (data ! idx) + 256 * uint (data ! (idx + 1))
               + uint (data ! (idx + 2))"
    then have "sub = 0 \<or> sub = 1" by auto
    with h have r: "idx + 2 < 50" by auto
    have b: "uint (data ! idx) < 256" "uint (data ! (idx + 1)) < 256"
      "uint (data ! (idx + 2)) < 256"
      using uint_lt2p [where 'a = 8] by simp_all
    have "0 \<le> u" using h by simp
    moreover have "u < 16777216" using h b by simp
    ultimately have sb: "(u AND 0x800000 \<noteq> 0) = (8388608 \<le> u)"
      by (rule sign_bit)
    have v: "decode_frames data ! sub ! i
        = real_of_int (if 8388608 \<le> u then u - 16777216 else u) * SCALE_FACTOR"
      using h by (simp add: decode_frames_nth decode_val_arith Let_def)
    from r sb v show "idx + 2 < 50
      \<and> decode_frames data ! sub ! i
          = real_of_int (if u AND 0x800000 \<noteq> 0 then u - 2 ^ 24 else u) * SCALE_FACTOR
      \<and> ((u AND 0x800000 \<noteq> 0) = (2 ^ 23 \<le> u))
      \<and> (u = 0x800000 \<longrightarrow> decode_frames data ! sub ! i = - 8388608 * SCALE_FACTOR)
      \<and> (u = 0x7FFFFF \<longrightarrow> decode_frames data ! sub ! i = 8388607 * SCALE_FACTOR)"
      by simp
  qed
  have B: "SCALE_FACTOR = (4.5 / 8388607 / 24.0) * 1000000"
    by (rule SCALE_FACTOR_def)
  have C: "map length (decode_frames data) = [8, 8]"
    by (simp add: decode_frames_def)
  have D: "length data = 52 \<longrightarrow>
        (\<exists>s'. process_packet s data = Inr s'
           \<and> data_queue s' = deque_append (deque_append (data_queue s) (decode_frames data ! 0))
                                          (decode_frames data ! 1))"
    by (simp add: process_packet_Inr)
  from A B C D show ?thesis by blast
qed

text \<open>A packet whose first two fields hold \<open>0x800000\<close> and \<open>0x7FFFFF\<close>.\<close>

theorem decode_channels_witness:
  "decode_frames (0xA0 # 5 # [0x80, 0, 0, 0x7F, 0xFF, 0xFF] @ replicate 44 0) ! 0 ! 0
     = - 8388608 * SCALE_FACTOR
   \<and> decode_frames (0xA0 # 5 # [0x80, 0, 0, 0x7F, 0xFF, 0xFF] @ replicate 44 0) ! 0 ! 1
     = 8388607 * SCALE_FACTOR
   \<and> (\<exists>s'. process_packet (BLEWorker_init MainWindow_data_queue (real \<circ> Suc) 0)
               (0xA0 # 5 # [0x80, 0, 0, 0x7F, 0xFF, 0xFF] @ replicate 44 0) = Inr s'
         \<and> items (data_queue s')
            = [decode_frames (0xA0 # 5 # [0x80, 0, 0, 0x7F, 0xFF, 0xFF] @ replicate 44 0) ! 0,
               decode_frames (0xA0 # 5 # [0x80, 0, 0, 0x7F, 0xFF, 0xFF] @ replicate 44 0) ! 1])"
proof -
  let ?D = "0xA0 # 5 # [0x80, 0, 0, 0x7F, 0xFF, 0xFF] @ replicate 44 (0::byte)"
  let ?i = "BLEWorker_init MainWindow_data_queue (real \<circ> Suc) 0"
  have A: "decode_frames ?D ! 0 ! 0 = - 8388608 * SCALE_FACTOR"
    using decode_channels [of ?D 0 0 2 "0x800000" ?i] by simp
  have B: "decode_frames ?D ! 0 ! 1 = 8388607 * SCALE_FACTOR"
    using decode_channels [of ?D 0 1 5 "0x7FFFFF" ?i] by simp
  have "length ?D = 52" by simp
  with decode_channels [of ?D 0 0 2 "0x800000" ?i] obtain s' where
    p: "process_packet ?i ?D = Inr s'"
    and q: "data_queue s' = deque_append (deque_append (data_queue ?i) (decode_frames ?D ! 0))
                                          (decode_frames ?D ! 1)"
    by blast
  from q have "items (data_queue s') = [decode_frames ?D ! 0, decode_frames ?D ! 1]"
    by (simp add: BLEWorker_init_def MainWindow_data_queue_def deque_append_def Let_def)
  with p A B show ?thesis by blast
qed

section \<open>Commands\<close>

text \<open>What \<open>send_cmd\<close> changes: nothing without a worker, nothing for a command other
  than \<open>b\<close>, and for \<open>b\<close> the start time and the \<open>received\<close> counter only.\<close>

lemma send_cmd_keeps:
  "send_cmd char None = None"
  "char \<noteq> ''b'' \<Longrightarrow> send_cmd char (Some w) = Some w"
  "send_cmd ''b'' (Some w) =
     Some (w\<lparr>reads := Suc (reads w), start_t := clock w (reads w), received := 0\<rparr>)"
  by (simp_all add: send_cmd_def time_time_def)

text \<open>
  Claim C4 says that the command \<open>b\<close> zeroes \<open>expected\<close> and \<open>received\<close> and clears
  \<open>last_seq\<close>. On a worker that has counted 100 packets without loss, with last
  sequence byte 7, \<open>send_cmd\<close> sets \<open>received\<close> to 0 and restarts the clock, and
  leaves \<open>expected = 100\<close> and \<open>last_seq = 7\<close>, while \<open>BLEWorker_init\<close> starts all
  of them afresh.
\<close>

theorem send_cmd_b_keeps_expected:
  "send_cmd ''b''
     (Some ((BLEWorker_init MainWindow_data_queue (real \<circ> Suc) 0)
              \<lparr>last_seq := 7, expected := 100, received := 100\<rparr>))
   = Some ((BLEWorker_init MainWindow_data_queue (real \<circ> Suc) 0)
              \<lparr>last_seq := 7, expected := 100, received := 0, start_t := 1, reads := 1\<rparr>)
   \<and> map_option expected
        (send_cmd ''b''
          (Some ((BLEWorker_init MainWindow_data_queue (real \<circ> Suc) 0)
                   \<lparr>last_seq := 7, expected := 100, received := 100\<rparr>))) = Some 100
   \<and> map_option last_seq
        (send_cmd ''b''
          (Some ((BLEWorker_init MainWindow_data_queue (real \<circ> Suc) 0)
                   \<lparr>last_seq := 7, expected := 100, received := 100\<rparr>))) = Some 7"
  by (simp add: send_cmd_def time_time_def BLEWorker_init_def)

end
